theory Spec2Isabelle
  imports Complex_Main "HOL-Library.Word" "HOL-Library.Multiset"
begin

chapter \<open>Definitions: the embedded code\<close>

section \<open>Common definitions\<close>

text \<open>
  Failures of the C++ code are values of the model.  \<open>ShapeMismatch\<close>, \<open>CheckFailed\<close>
  and \<open>OutOfRange\<close> are the fatal log, the failed \<open>CHECK\<close> and the thrown
  \<open>std::out_of_range\<close> of the sources.  \<open>InvalidRead\<close> marks a read outside an
  array: the C++ code has no defined behaviour there, the model stops with this value.
\<close>

datatype error = ShapeMismatch | CheckFailed | OutOfRange | InvalidRead

definition read_at :: "'a list \<Rightarrow> int \<Rightarrow> error + 'a" where
  "read_at xs i = (if 0 \<le> i \<and> i < int (length xs) then Inr (xs ! nat i) else Inl InvalidRead)"

definition bind_res :: "error + 'a \<Rightarrow> ('a \<Rightarrow> error + 'b) \<Rightarrow> error + 'b" where
  "bind_res m f = (case m of Inl e \<Rightarrow> Inl e | Inr x \<Rightarrow> f x)"

section \<open>COO entry removal (array/cpu/coo_remove_if.cc)\<close>

text \<open>
  A COO matrix as the code holds it: the two dimensions, the parallel \<open>row\<close> and \<open>col\<close>
  arrays and the optional edge-id array \<open>data\<close> (\<open>COOHasData\<close>).  Ids are \<open>int\<close>: the
  function does no arithmetic on them.
\<close>

record COOMatrix =
  num_rows :: int
  num_cols :: int
  row :: "int list"
  col :: "int list"
  data :: "int list option"

text \<open>
  The loop of \<open>COORemoveIf\<close>, lines 32 to 41.  The three output buffers are allocated
  with \<open>nnz\<close> cells and written at \<open>j\<close>; the views returned have length \<open>j\<close>, so the
  model carries the written prefixes.  The comparison \<open>val[eid] != criteria\<close> is HOL
  inequality on the value type.
\<close>

function COORemoveIf_loop ::
  "int list \<Rightarrow> int list \<Rightarrow> int list option \<Rightarrow> 'a list \<Rightarrow> 'a \<Rightarrow> nat \<Rightarrow> nat
     \<Rightarrow> int list \<times> int list \<times> int list \<Rightarrow> error + (int list \<times> int list \<times> int list)" where
  "COORemoveIf_loop rw cl dt val criteria nnz i (new_row, new_col, new_eid) =
     (if i < nnz then
        bind_res (case dt of Some d \<Rightarrow> read_at d (int i) | None \<Rightarrow> Inr (int i)) (\<lambda>eid.
        bind_res (read_at val eid) (\<lambda>v.
          if v \<noteq> criteria then
            bind_res (read_at rw (int i)) (\<lambda>r.
            bind_res (read_at cl (int i)) (\<lambda>c.
              COORemoveIf_loop rw cl dt val criteria nnz (i + 1)
                (new_row @ [r], new_col @ [c], new_eid @ [eid])))
          else COORemoveIf_loop rw cl dt val criteria nnz (i + 1) (new_row, new_col, new_eid)))
      else Inr (new_row, new_col, new_eid))"
  by pat_completeness auto
termination
  by (relation "measure (\<lambda>(rw, cl, dt, val, criteria, nnz, i, acc). nnz - i)") auto

declare COORemoveIf_loop.simps [simp del]

definition COORemoveIf :: "COOMatrix \<Rightarrow> 'a list \<Rightarrow> 'a \<Rightarrow> error + COOMatrix" where
  "COORemoveIf coo values criteria =
     bind_res (COORemoveIf_loop (row coo) (col coo) (data coo) values criteria
                 (length (row coo)) 0 ([], [], []))
       (\<lambda>(new_row, new_col, new_eid).
          Inr \<lparr>num_rows = num_rows coo, num_cols = num_cols coo,
               row = new_row, col = new_col, data = Some new_eid\<rparr>)"

text \<open>
  The edge id of entry \<open>i\<close> (\<open>data ? data[i] : i\<close>), the well-formed inputs, and the
  entries the claim speaks of: those whose value, read at the edge id, differs from the
  criteria.
\<close>

definition COOEdgeId :: "int list option \<Rightarrow> nat \<Rightarrow> int" where
  "COOEdgeId dt i = (case dt of Some d \<Rightarrow> d ! i | None \<Rightarrow> int i)"

definition coo_values_ok :: "COOMatrix \<Rightarrow> 'a list \<Rightarrow> bool" where
  "coo_values_ok coo values \<longleftrightarrow>
     length (col coo) = length (row coo) \<and>
     (case data coo of
        None \<Rightarrow> length values = length (row coo)
      | Some d \<Rightarrow> length d = length (row coo) \<and>
                  list_all (\<lambda>e. 0 \<le> e \<and> e < int (length values)) d)"

definition COOKept :: "COOMatrix \<Rightarrow> 'a list \<Rightarrow> 'a \<Rightarrow> nat list" where
  "COOKept coo values criteria =
     filter (\<lambda>i. values ! nat (COOEdgeId (data coo) i) \<noteq> criteria) [0..<length (row coo)]"

section \<open>Broadcast shape inference (kernel/binary_reduce.cc)\<close>




















section \<open>SpMM over CSR (array/cuda/spmm.cuh)\<close>

text \<open>
  A C pointer is a function from offsets to cells: the kernel indexes its arguments
  without any bound.  Offsets and graph indices (\<open>Idx\<close>) are \<open>int\<close>; the thread
  counters \<open>ty\<close> and \<open>tx\<close> are never negative and are \<open>nat\<close>.  The 32-bit width of
  the kernel's \<open>int\<close> counters is not modelled.
\<close>

type_synonym 'a ptr = "int \<Rightarrow> 'a"






text \<open>
  The arrays the kernel writes: \<open>out\<close>, \<open>arg_u\<close> and \<open>arg_e\<close>.
\<close>

record 'a SpMMCsrOut =
  out :: "'a ptr"
  arg_u :: "int ptr"
  arg_e :: "int ptr"

















section \<open>Row-wise pick policies (array/cpu/rowwise_sampling.cc, array/cpu/rowwise_topk.cc)\<close>

subsection \<open>Loops\<close>

text \<open>
  \<open>for (int64_t j = lo; j < hi; ++j) body\<close> on a state, where the body may fail.
\<close>

function for_loop :: "int \<Rightarrow> int \<Rightarrow> (int \<Rightarrow> 's \<Rightarrow> error + 's) \<Rightarrow> 's \<Rightarrow> error + 's" where
  "for_loop j hi body s =
     (if j < hi then
        (case body j s of Inl e \<Rightarrow> Inl e | Inr s' \<Rightarrow> for_loop (j + 1) hi body s')
      else Inr s)"
  by pat_completeness auto
termination
  by (relation "measure (\<lambda>(j, hi, body, s). nat (hi - j))") auto

declare for_loop.simps [simp del]

subsection \<open>The policies of a row\<close>

text \<open>
  The two closures a sampling policy hands to the pick engine.  A \<open>NumPicksFn\<close> takes
  \<open>(rowid, off, len, col, data)\<close> and returns the number of picks of the row.  A
  \<open>PickFn\<close> takes \<open>(rowid, off, len, num_picks, col, data, out_idx)\<close> and writes the
  picked positions to \<open>out_idx\<close>; the model returns the cells written, in order.
  \<open>data\<close> is the optional edge-id array (a null pointer is \<open>None\<close>).  Probabilities and
  weights (\<open>FloatType\<close>) are \<open>real\<close>: the code compares them and never computes with
  them.
\<close>

type_synonym NumPicksFn = "int \<Rightarrow> int \<Rightarrow> int \<Rightarrow> int list \<Rightarrow> int list option \<Rightarrow> error + int"

type_synonym PickFn =
  "int \<Rightarrow> int \<Rightarrow> int \<Rightarrow> int \<Rightarrow> int list \<Rightarrow> int list option \<Rightarrow> error + int list"

text \<open>\<open>data ? data[i] : i\<close>\<close>

definition edge_id :: "int list option \<Rightarrow> int \<Rightarrow> error + int" where
  "edge_id dt i = (case dt of Some d \<Rightarrow> read_at d i | None \<Rightarrow> Inr i)"

text \<open>
  The random engine is not part of the sources at hand.  Its two primitives are
  arguments of the model: \<open>UniformChoice(num, population, out, replace)\<close> and
  \<open>Choice(num, prob, out, replace)\<close> are functions that return the cells they write to
  \<open>out\<close>.
\<close>

type_synonym UniformChoiceFn = "int \<Rightarrow> int \<Rightarrow> bool \<Rightarrow> int list"

type_synonym ChoiceFn = "int \<Rightarrow> real list \<Rightarrow> bool \<Rightarrow> int list"

text \<open>\<open>GetSamplingUniformNumPicksFn\<close>, lines 122 to 136.\<close>

definition GetSamplingUniformNumPicksFn :: "int \<Rightarrow> bool \<Rightarrow> NumPicksFn" where
  "GetSamplingUniformNumPicksFn num_samples replace =
     (\<lambda>rowid off len col dt.
        if num_samples = - 1 then Inr len
        else if replace then Inr (if len = 0 then 0 else num_samples)
        else Inr (min len num_samples))"

text \<open>
  \<open>GetSamplingUniformPickFn\<close>, lines 138 to 156.  After the call of \<open>UniformChoice\<close> the
  loop of line 151 adds \<open>off\<close> to the first \<open>num_picks\<close> cells of \<open>out_idx\<close>.
\<close>

definition GetSamplingUniformPickFn :: "UniformChoiceFn \<Rightarrow> int \<Rightarrow> bool \<Rightarrow> PickFn" where
  "GetSamplingUniformPickFn UniformChoice num_samples replace =
     (\<lambda>rowid off len num_picks col dt.
        if num_samples = - 1 \<or> (\<not> replace \<and> len = num_picks) then
          for_loop 0 len (\<lambda>j out_idx. Inr (out_idx @ [off + j])) []
        else
          Inr (map (\<lambda>x. x + off) (take (nat num_picks) (UniformChoice num_picks len replace))))"

text \<open>\<open>DoubleSlice\<close>, lines 106 to 120: \<open>array[idx[off:off + len]]\<close>.\<close>

definition DoubleSlice :: "real list \<Rightarrow> int list option \<Rightarrow> int \<Rightarrow> int \<Rightarrow> error + real list" where
  "DoubleSlice array idx_data off len =
     for_loop 0 len
       (\<lambda>j ret. bind_res (edge_id idx_data (off + j)) (\<lambda>e.
                 bind_res (read_at array e) (\<lambda>v. Inr (ret @ [v])))) []"

text \<open>
  \<open>GetSamplingNumPicksFn\<close>, lines 158 to 180: the loop counts the edges of the row whose
  probability is positive.
\<close>

definition GetSamplingNumPicksFn :: "int \<Rightarrow> real list \<Rightarrow> bool \<Rightarrow> NumPicksFn" where
  "GetSamplingNumPicksFn num_samples prob replace =
     (\<lambda>rowid off len col dt.
        bind_res
          (for_loop 0 len
             (\<lambda>j num_possible_picks.
                bind_res (edge_id dt (off + j)) (\<lambda>eid.
                bind_res (read_at prob eid) (\<lambda>p.
                  Inr (if p > 0 then num_possible_picks + 1 else num_possible_picks)))) 0)
          (\<lambda>num_possible_picks.
             if num_samples = - 1 then Inr num_possible_picks
             else if replace then Inr (if len = 0 then 0 else num_samples)
             else Inr (min num_samples num_possible_picks)))"

text \<open>
  \<open>GetSamplingPickFn\<close>, lines 182 to 207.  The \<open>CHECK_EQ\<close> of line 197 is fatal when
  it fails.
\<close>

definition GetSamplingPickFn :: "ChoiceFn \<Rightarrow> int \<Rightarrow> real list \<Rightarrow> bool \<Rightarrow> PickFn" where
  "GetSamplingPickFn Choice num_samples prob replace =
     (\<lambda>rowid off len num_picks col dt.
        if num_samples = - 1 \<or> (\<not> replace \<and> len = num_picks) then
          bind_res
            (for_loop 0 len
               (\<lambda>j out_idx.
                  bind_res (edge_id dt (off + j)) (\<lambda>eid.
                  bind_res (read_at prob eid) (\<lambda>p.
                    Inr (if p > 0 then out_idx @ [off + j] else out_idx)))) [])
            (\<lambda>out_idx. if int (length out_idx) = num_picks then Inr out_idx else Inl CheckFailed)
        else
          bind_res (DoubleSlice prob dt off len) (\<lambda>prob_selected.
            Inr (map (\<lambda>x. x + off) (take (nat num_picks) (Choice num_picks prob_selected replace)))))"

subsection \<open>The pick engine\<close>

text \<open>
  Modelled from the spec: the pick engine (\<open>CSRRowWisePick\<close> of the missing header
  \<open>rowwise_pick.h\<close>).  For each queried row the first phase asks the num-picks function
  for the count \<open>k\<close> of the row, the second phase has the pick function write the \<open>k\<close>
  chosen positions of the row, and the rows, columns and edge ids at those positions are
  gathered; without a \<open>data\<close> array the position is the edge id.  \<open>RowPick\<close> is the two
  phases for one row, given by its offset and length.
\<close>

definition RowPick ::
  "PickFn \<Rightarrow> NumPicksFn \<Rightarrow> int \<Rightarrow> int \<Rightarrow> int \<Rightarrow> int list \<Rightarrow> int list option \<Rightarrow> error + int list" where
  "RowPick pick_fn num_picks_fn rowid off len cols dt =
     bind_res (num_picks_fn rowid off len cols dt) (\<lambda>k. pick_fn rowid off len k cols dt)"

record CSRMatrix =
  m_num_rows :: int
  m_num_cols :: int
  m_indptr :: "int list"
  m_indices :: "int list"
  m_data :: "int list option"

fun gather_picks ::
  "int \<Rightarrow> int list \<Rightarrow> int list option \<Rightarrow> int list \<Rightarrow> error + (int \<times> int \<times> int) list" where
  "gather_picks rid cols dt [] = Inr []"
| "gather_picks rid cols dt (p # ps) =
     bind_res (read_at cols p) (\<lambda>c.
     bind_res (edge_id dt p) (\<lambda>e.
     bind_res (gather_picks rid cols dt ps) (\<lambda>rest. Inr ((rid, c, e) # rest))))"

definition CSRRowWisePick_row ::
  "CSRMatrix \<Rightarrow> PickFn \<Rightarrow> NumPicksFn \<Rightarrow> int \<Rightarrow> error + (int \<times> int \<times> int) list" where
  "CSRRowWisePick_row mat pick_fn num_picks_fn rid =
     bind_res (read_at (m_indptr mat) rid) (\<lambda>off.
     bind_res (read_at (m_indptr mat) (rid + 1)) (\<lambda>nxt.
     bind_res (RowPick pick_fn num_picks_fn rid off (nxt - off) (m_indices mat) (m_data mat))
       (gather_picks rid (m_indices mat) (m_data mat))))"

fun CSRRowWisePick_rows ::
  "CSRMatrix \<Rightarrow> PickFn \<Rightarrow> NumPicksFn \<Rightarrow> int list \<Rightarrow> error + (int \<times> int \<times> int) list list" where
  "CSRRowWisePick_rows mat pick_fn num_picks_fn [] = Inr []"
| "CSRRowWisePick_rows mat pick_fn num_picks_fn (rid # rows) =
     bind_res (CSRRowWisePick_row mat pick_fn num_picks_fn rid) (\<lambda>seg.
     bind_res (CSRRowWisePick_rows mat pick_fn num_picks_fn rows) (\<lambda>segs. Inr (seg # segs)))"

definition CSRRowWisePick ::
  "CSRMatrix \<Rightarrow> int list \<Rightarrow> int \<Rightarrow> PickFn \<Rightarrow> NumPicksFn \<Rightarrow> error + COOMatrix" where
  "CSRRowWisePick mat rows num_picks pick_fn num_picks_fn =
     bind_res (CSRRowWisePick_rows mat pick_fn num_picks_fn rows) (\<lambda>segs.
       Inr \<lparr>num_rows = m_num_rows mat, num_cols = m_num_cols mat,
            row = map fst (concat segs), col = map (fst \<circ> snd) (concat segs),
            data = Some (map (snd \<circ> snd) (concat segs))\<rparr>)"

text \<open>The CSR entry points, lines 230 to 254.\<close>

definition CSRRowWiseSampling ::
  "ChoiceFn \<Rightarrow> CSRMatrix \<Rightarrow> int list \<Rightarrow> int \<Rightarrow> real list \<Rightarrow> bool \<Rightarrow> error + COOMatrix" where
  "CSRRowWiseSampling Choice mat rows num_samples prob replace =
     (let num_picks_fn = GetSamplingNumPicksFn num_samples prob replace;
          pick_fn = GetSamplingPickFn Choice num_samples prob replace
      in CSRRowWisePick mat rows num_samples pick_fn num_picks_fn)"

definition CSRRowWiseSamplingUniform ::
  "UniformChoiceFn \<Rightarrow> CSRMatrix \<Rightarrow> int list \<Rightarrow> int \<Rightarrow> bool \<Rightarrow> error + COOMatrix" where
  "CSRRowWiseSamplingUniform UniformChoice mat rows num_samples replace =
     (let num_picks_fn = GetSamplingUniformNumPicksFn num_samples replace;
          pick_fn = GetSamplingUniformPickFn UniformChoice num_samples replace
      in CSRRowWisePick mat rows num_samples pick_fn num_picks_fn)"

subsection \<open>Contracts of the random engine and the rows they are used on\<close>


definition Choice_ok :: "ChoiceFn \<Rightarrow> bool" where
  "Choice_ok Choice \<longleftrightarrow>
     (\<forall>num prob replace.
        0 \<le> num \<and>
        (if replace then num = 0 \<or> (\<exists>p \<in> set prob. 0 < p)
         else num \<le> int (length (filter (\<lambda>p. 0 < p) prob))) \<longrightarrow>
          length (Choice num prob replace) = nat num \<and>
          (\<forall>i \<in> set (Choice num prob replace).
             0 \<le> i \<and> i < int (length prob) \<and> 0 < prob ! nat i) \<and>
          (\<not> replace \<longrightarrow> distinct (Choice num prob replace)))"



text \<open>
  The edge id of a position, read without a check, and the rows on which every read of
  the weighted policy stays inside its array: the row has a length that is not negative
  and each of its positions has an edge id with a probability.
\<close>

definition eid_of :: "int list option \<Rightarrow> int \<Rightarrow> int" where
  "eid_of dt i = (case dt of Some d \<Rightarrow> d ! nat i | None \<Rightarrow> i)"

definition row_ok :: "real list \<Rightarrow> int list option \<Rightarrow> int \<Rightarrow> int \<Rightarrow> bool" where
  "row_ok prob dt off len \<longleftrightarrow>
     0 \<le> len \<and>
     list_all (\<lambda>p. (case dt of Some d \<Rightarrow> 0 \<le> p \<and> p < int (length d) | None \<Rightarrow> True) \<and>
                   0 \<le> eid_of dt p \<and> eid_of dt p < int (length prob))
       [off..off + len - 1]"

definition positive_positions :: "real list \<Rightarrow> int list option \<Rightarrow> int \<Rightarrow> int \<Rightarrow> int list" where
  "positive_positions prob dt off len =
     filter (\<lambda>p. 0 < prob ! nat (eid_of dt p)) [off..off + len - 1]"


definition row_probs :: "real list \<Rightarrow> int list option \<Rightarrow> int \<Rightarrow> int \<Rightarrow> real list" where
  "row_probs prob dt off len = map (\<lambda>p. prob ! nat (eid_of dt p)) [off..off + len - 1]"

definition weighted_num_picks_of :: "int \<Rightarrow> bool \<Rightarrow> int \<Rightarrow> int \<Rightarrow> int" where
  "weighted_num_picks_of num_samples replace len npos =
     (if num_samples = - 1 then npos
      else if replace then (if len = 0 then 0 else num_samples)
      else min num_samples npos)"

section \<open>Top-k pick (array/cpu/rowwise_topk.cc)\<close>

text \<open>
  \<open>std::sort\<close> belongs to the C++ library.  The standard fixes its result up to the
  order of equivalent elements: for a comparison that is a strict weak ordering the
  range ends as a permutation of itself in which no element is less than an earlier
  one.  The sort is an argument of the model, and \<open>std_sort_ok\<close> is this contract.
\<close>

type_synonym SortFn = "(int \<Rightarrow> int \<Rightarrow> bool) \<Rightarrow> int list \<Rightarrow> int list"



text \<open>
  The weight of a position as the comparison functions of lines 25 to 41 read it:
  \<open>wdata[data[i]]\<close> with edge ids, \<open>wdata[i]\<close> without.
\<close>

definition weight_of :: "real list \<Rightarrow> int list option \<Rightarrow> int \<Rightarrow> real" where
  "weight_of wdata dt i = wdata ! nat (eid_of dt i)"

text \<open>
  \<open>GetTopkPickFn\<close>, lines 15 to 54.  \<open>idx\<close> is filled with the positions
  \<open>off, off + 1, ...\<close> of the row and sorted; the loop of line 48 copies its first \<open>k\<close>
  cells, and reads past the end of \<open>idx\<close> when \<open>k\<close> exceeds the row length.  Sorting two
  or more positions compares each of them, so each weight of the row is read; on a row
  with a weight outside the weight array the model stops with \<open>InvalidRead\<close>.
\<close>

definition GetTopkPickFn ::
  "SortFn \<Rightarrow> int \<Rightarrow> real list \<Rightarrow> bool
     \<Rightarrow> int \<Rightarrow> int \<Rightarrow> int \<Rightarrow> int list \<Rightarrow> int list option \<Rightarrow> error + int list" where
  "GetTopkPickFn srt k weight ascending =
     (\<lambda>rowid off len cols dt.
        let compare_fn =
              (if ascending then (\<lambda>i j. weight_of weight dt i < weight_of weight dt j)
               else (\<lambda>i j. weight_of weight dt i > weight_of weight dt j));
            idx = srt compare_fn [off..off + len - 1]
        in if 2 \<le> len \<and> \<not> row_ok weight dt off len then Inl InvalidRead
           else for_loop 0 k (\<lambda>j out_idx. bind_res (read_at idx j) (\<lambda>p. Inr (out_idx @ [p]))) [])"

text \<open>
  \<open>CSRRowWiseTopk\<close>, lines 58 to 63.  Modelled from the spec: the engine called here
  with \<open>(mat, rows, k, false, pick_fn)\<close> picks the constant number \<open>k\<close> for every row.
\<close>

definition CSRRowWiseTopk ::
  "SortFn \<Rightarrow> CSRMatrix \<Rightarrow> int list \<Rightarrow> int \<Rightarrow> real list \<Rightarrow> bool \<Rightarrow> error + COOMatrix" where
  "CSRRowWiseTopk srt mat rows k weight ascending =
     (let pick_fn = GetTopkPickFn srt k weight ascending
      in CSRRowWisePick mat rows k
           (\<lambda>rowid off len num_picks cols dt. pick_fn rowid off len cols dt)
           (\<lambda>rowid off len cols dt. Inr k))"





section \<open>Unique and compact (cuda/unique_and_compact_impl.cu)\<close>

text \<open>
  The device primitives the function calls are library routines and the repository's
  \<open>Sort\<close>, none of them among the sources at hand.  Each is the list function of its
  contract: \<open>Sort\<close> sorts ids in ascending order and, in its second form, also returns
  for each cell of the result its index in the input; \<open>thrust::binary_search\<close> on a
  sorted range tells whether a value occurs; \<open>thrust::lower_bound\<close> on a sorted range
  returns the index of the first cell that is not smaller than the value;
  \<open>thrust::remove_copy_if\<close> with a stencil keeps the cells whose stencil is false;
  \<open>cub::DeviceRunLengthEncode::Encode\<close> keeps one cell of each run of equal cells.
  \<open>num_bits\<close> tells \<open>Sort\<close> how many low bits of an id to sort on; lines 53 to 74
  recompute it from the largest id when the caller's value is out of range.  The model
  takes it as wide enough for the ids, so \<open>Sort\<close> sorts on the whole id.
\<close>

definition Sort_ids :: "int list \<Rightarrow> int list" where
  "Sort_ids xs = sort xs"

definition Sort_with_index :: "int list \<Rightarrow> int list \<times> int list" where
  "Sort_with_index xs =
     (let ps = sort_key fst (zip xs (map int [0..<length xs]))
      in (map fst ps, map snd ps))"

definition binary_search :: "int list \<Rightarrow> int \<Rightarrow> bool" where
  "binary_search xs x \<longleftrightarrow> x \<in> set xs"

definition lower_bound :: "int list \<Rightarrow> int \<Rightarrow> int" where
  "lower_bound xs x = int (length (takeWhile (\<lambda>y. y < x) xs))"

fun gather :: "int list \<Rightarrow> int list \<Rightarrow> error + int list" where
  "gather tbl [] = Inr []"
| "gather tbl (l # ls) =
     bind_res (read_at tbl l) (\<lambda>v. bind_res (gather tbl ls) (\<lambda>vs. Inr (v # vs)))"

text \<open>
  \<open>UniqueAndCompact\<close>, lines 35 to 177.  \<open>EqualityFunc\<close> reads
  \<open>sorted_order[found_locations[i]]\<close>; \<open>lower_bound\<close> returns the length of
  \<open>sorted_order\<close> for an id larger than all of its cells, and the read is then outside
  the array.  The check of lines 155 to 160 throws \<open>std::out_of_range\<close>.
\<close>

definition UniqueAndCompact ::
  "int list \<Rightarrow> int list \<Rightarrow> int list \<Rightarrow> error + (int list \<times> int list \<times> int list)" where
  "UniqueAndCompact src_ids dst_ids unique_dst_ids =
     (let sorted_unique_dst_ids = Sort_ids unique_dst_ids;
          is_dst = map (binary_search sorted_unique_dst_ids) src_ids;
          only_src = map fst (filter (\<lambda>(x, d). \<not> d) (zip src_ids is_dst));
          sorted_only_src = Sort_ids only_src;
          unique_only_src = remdups_adj sorted_only_src;
          real_order = unique_dst_ids @ unique_only_src;
          (sorted_order, new_ids) = Sort_with_index real_order;
          new_src_ids_loc = map (lower_bound sorted_order) src_ids;
          new_dst_ids_loc = map (lower_bound sorted_order) dst_ids
      in bind_res (gather sorted_order new_dst_ids_loc) (\<lambda>found.
           if \<not> list_all (\<lambda>(f, d). f = d) (zip found dst_ids) then Inl OutOfRange
           else
             bind_res (gather new_ids new_src_ids_loc) (\<lambda>new_src_ids.
             bind_res (gather new_ids new_dst_ids_loc) (\<lambda>new_dst_ids.
               Inr (real_order, new_src_ids, new_dst_ids)))))"

section \<open>Compaction of indices (matrix_ops.cc)\<close>

text \<open>
  The tensor library is not part of the repository.  \<open>Tensor::sort\<close> and
  \<open>torch::_unique\<close> are arguments of the model, each with the contract of its
  documentation.  \<open>sort\<close> returns the values in ascending order and the indices that
  bring them there; the order it gives to equal values is left open.  \<open>_unique\<close> with
  \<open>sorted = false\<close> and \<open>return_inverse = true\<close> returns each value once, in an order
  that is left open, and for every input cell the index of its value in that result.
  Ids are \<open>int\<close>, indices into tensors are \<open>nat\<close>.
\<close>

type_synonym TorchSort = "int list \<Rightarrow> int list \<times> nat list"

type_synonym TorchUnique = "int list \<Rightarrow> int list \<times> nat list"

definition torch_sort_ok :: "TorchSort \<Rightarrow> bool" where
  "torch_sort_ok srt \<longleftrightarrow>
     (\<forall>xs. case srt xs of (vals, idx) \<Rightarrow>
        sorted vals \<and> mset idx = mset [0..<length xs] \<and> vals = map (\<lambda>i. xs ! i) idx)"

definition torch_unique_ok :: "TorchUnique \<Rightarrow> bool" where
  "torch_unique_ok uq \<longleftrightarrow>
     (\<forall>xs. case uq xs of (uniqued, inv_idx) \<Rightarrow>
        distinct uniqued \<and> set uniqued = set xs \<and> length inv_idx = length xs \<and>
        (\<forall>i < length xs. inv_idx ! i < length uniqued \<and> uniqued ! (inv_idx ! i) = xs ! i))"

text \<open>
  \<open>index_select(0, index)\<close> and \<open>index_put_({index}, values)\<close> on tensors of one
  dimension; an index outside the tensor is an error of the library.
\<close>

fun index_select :: "'a list \<Rightarrow> nat list \<Rightarrow> error + 'a list" where
  "index_select t [] = Inr []"
| "index_select t (i # is) =
     (if i < length t
      then bind_res (index_select t is) (\<lambda>rest. Inr (t ! i # rest))
      else Inl InvalidRead)"

fun index_put :: "'a list \<Rightarrow> nat list \<Rightarrow> 'a list \<Rightarrow> error + 'a list" where
  "index_put t (i # is) (v # vs) =
     (if i < length t then index_put (t[i := v]) is vs else Inl InvalidRead)"
| "index_put t [] [] = Inr t"
| "index_put t _ _ = Inl ShapeMismatch"

text \<open>
  \<open>CompactIndices\<close>, lines 58 to 83.  \<open>empty_like\<close> gives a tensor whose cells hold no
  defined value; every cell is written by \<open>index_put_\<close> when \<open>sort_idx\<close> is a
  permutation, and the model starts from cells that hold 0.
  \<open>arange(uniqued.numel() - 1, -1, -1)\<close> counts down to 0.
\<close>

definition CompactIndices ::
  "TorchSort \<Rightarrow> TorchUnique \<Rightarrow> int list \<Rightarrow> int list option \<Rightarrow> error + (nat list \<times> int list)" where
  "CompactIndices srt uq rw leading_indices =
     (case srt rw of (sort_row, sort_idx) \<Rightarrow>
        bind_res (index_put (replicate (length sort_idx) 0) sort_idx [0..<length sort_idx])
          (\<lambda>rev_sort_idx.
             let n_leading_indices = (case leading_indices of Some l \<Rightarrow> length l | None \<Rightarrow> 0);
                 (uniqued, uniq_idx) =
                    (case leading_indices of Some l \<Rightarrow> uq (l @ sort_row) | None \<Rightarrow> uq sort_row)
             in bind_res
                  (index_select (rev [0..<length uniqued])
                     (take (length rw) (drop n_leading_indices uniq_idx)))
                  (\<lambda>sel. bind_res (index_select sel rev_sort_idx)
                     (\<lambda>new_row. Inr (new_row, uniqued)))))"

text \<open>
  \<open>CompactCOO\<close>, lines 85 to 112, as far as the ids go: the relabelled row (or column)
  of the matrix and the returned reverse mapping \<open>uniqued.flip(-1)\<close>.
\<close>

definition CompactCOO ::
  "TorchSort \<Rightarrow> TorchUnique \<Rightarrow> int list \<Rightarrow> int list option \<Rightarrow> error + (nat list \<times> int list)" where
  "CompactCOO srt uq rw leading_indices =
     bind_res (CompactIndices srt uq rw leading_indices)
       (\<lambda>(new_row, uniqued). Inr (new_row, rev uniqued))"

text \<open>
  Two instances of the library functions.  The sort is stable.  The first unique
  returns the values in ascending order; the second returns them in the reverse of the
  order of their first occurrence.
\<close>

definition stable_sort :: TorchSort where
  "stable_sort xs =
     (let ps = sort_key fst (zip xs [0..<length xs]) in (map fst ps, map snd ps))"

definition index_of :: "int list \<Rightarrow> int \<Rightarrow> nat" where
  "index_of us x = length (takeWhile (\<lambda>y. y \<noteq> x) us)"

definition sorted_unique :: TorchUnique where
  "sorted_unique xs = (let us = remdups (sort xs) in (us, map (index_of us) xs))"

definition reversed_unique :: TorchUnique where
  "reversed_unique xs = (let us = rev (remdups (rev xs)) in (rev us, map (index_of (rev us)) xs))"

text \<open>The leading ids of a call: none when the argument is absent.\<close>

definition leading_list :: "int list option \<Rightarrow> int list" where
  "leading_list leading_indices = (case leading_indices of Some l \<Rightarrow> l | None \<Rightarrow> [])"

chapter \<open>Theorems\<close>

section \<open>Common lemmas\<close>

lemma bind_res_simps:
  "bind_res (Inl e) f = Inl e"
  "bind_res (Inr x) f = f x"
  by (simp_all add: bind_res_def)

lemma read_at_in_range: "i < length xs \<Longrightarrow> read_at xs (int i) = Inr (xs ! i)"
  by (simp add: read_at_def)

section \<open>COO entry removal\<close>

lemma COORemoveIf_loop_inv:
  assumes "length cl = length rw"
    and "case dt of None \<Rightarrow> length rw \<le> length val
         | Some d \<Rightarrow> length d = length rw \<and> list_all (\<lambda>e. 0 \<le> e \<and> e < int (length val)) d"
    and "i \<le> length rw"
  shows "COORemoveIf_loop rw cl dt val criteria (length rw) i (nr, nc, ne) =
           Inr (nr @ map (\<lambda>k. rw ! k) (filter (\<lambda>k. val ! nat (COOEdgeId dt k) \<noteq> criteria) [i..<length rw]),
                nc @ map (\<lambda>k. cl ! k) (filter (\<lambda>k. val ! nat (COOEdgeId dt k) \<noteq> criteria) [i..<length rw]),
                ne @ map (COOEdgeId dt) (filter (\<lambda>k. val ! nat (COOEdgeId dt k) \<noteq> criteria) [i..<length rw]))"
  using assms(3)
proof (induction "length rw - i" arbitrary: i nr nc ne)
  case 0
  then have "i = length rw" by simp
  then show ?case by (subst COORemoveIf_loop.simps) simp
next
  case (Suc n)
  then have lt: "i < length rw" and n: "n = length rw - (i + 1)" and le: "i + 1 \<le> length rw"
    by simp_all
  have eid: "(case dt of Some d \<Rightarrow> read_at d (int i) | None \<Rightarrow> Inr (int i)) = Inr (COOEdgeId dt i)"
    using assms(2) lt by (simp add: COOEdgeId_def read_at_in_range split: option.splits)
  have rng: "0 \<le> COOEdgeId dt i \<and> COOEdgeId dt i < int (length val)"
    using assms(2) lt by (auto simp: COOEdgeId_def list_all_length split: option.splits)
  then have rv: "read_at val (COOEdgeId dt i) = Inr (val ! nat (COOEdgeId dt i))"
    by (simp add: read_at_def)
  have rr: "read_at rw (int i) = Inr (rw ! i)" and rc: "read_at cl (int i) = Inr (cl ! i)"
    using lt assms(1) by (simp_all add: read_at_in_range)
  have up: "[i..<length rw] = i # [i + 1..<length rw]"
    using lt by (simp add: upt_conv_Cons)
  show ?case
  proof (cases "val ! nat (COOEdgeId dt i) \<noteq> criteria")
    case True
    show ?thesis
      apply (subst COORemoveIf_loop.simps)
      apply (simp only: lt if_True eid rv rr rc bind_res_simps True)
      apply (subst Suc.hyps(1) [OF n le])
      apply (subst (1 2 3) up)
      using True apply simp
      done
  next
    case False
    show ?thesis
      apply (subst COORemoveIf_loop.simps)
      apply (simp only: lt if_True eid rv rr rc bind_res_simps False if_False)
      apply (subst Suc.hyps(1) [OF n le])
      apply (subst (1 2 3) up)
      using False apply simp
      done
  qed
qed

text \<open>
  Claim C10.  For a COO matrix whose \<open>col\<close> array is as long as its \<open>row\<close> array and a
  value array that has a value for every entry (one per entry without edge ids, one at
  every edge id otherwise), \<open>COORemoveIf\<close> returns a COO matrix with the same \<open>num_rows\<close>
  and \<open>num_cols\<close> whose (row, col) pairs are the input entries whose value differs from
  the criteria, in their original order; the edge ids returned are those of the kept
  entries.
\<close>

theorem COORemoveIf_keeps_subsequence:
  assumes "coo_values_ok coo values"
  shows "\<exists>out. COORemoveIf coo values criteria = Inr out \<and>
           num_rows out = num_rows coo \<and> num_cols out = num_cols coo \<and>
           zip (row out) (col out) =
             map (\<lambda>i. (row coo ! i, col coo ! i)) (COOKept coo values criteria) \<and>
           data out = Some (map (COOEdgeId (data coo)) (COOKept coo values criteria))"
proof -
  have a1: "length (col coo) = length (row coo)"
    using assms by (simp add: coo_values_ok_def)
  have a2: "case data coo of None \<Rightarrow> length (row coo) \<le> length values
         | Some d \<Rightarrow> length d = length (row coo) \<and> list_all (\<lambda>e. 0 \<le> e \<and> e < int (length values)) d"
    using assms by (auto simp: coo_values_ok_def split: option.splits)
  show ?thesis
    unfolding COORemoveIf_def COOKept_def
    apply (subst COORemoveIf_loop_inv [OF a1 a2])
     apply simp
    apply (simp add: bind_res_simps zip_map_map)
    apply (simp add: zip_same_conv_map)
    done
qed

theorem COORemoveIf_keeps_subsequence_witness:
  "coo_values_ok \<lparr>num_rows = 3, num_cols = 3, row = [0,1,2], col = [1,2,0], data = None\<rparr> [1::int,0,1] \<and>
   (\<exists>out. COORemoveIf \<lparr>num_rows = 3, num_cols = 3, row = [0,1,2], col = [1,2,0], data = None\<rparr> [1::int,0,1] 0 = Inr out \<and>
          zip (row out) (col out) = [(0, 1), (2, 0)])"
proof -
  have ok: "coo_values_ok \<lparr>num_rows = 3, num_cols = 3, row = [0,1,2], col = [1,2,0], data = None\<rparr> [1::int,0,1]"
    by (simp add: coo_values_ok_def)
  have k: "COOKept \<lparr>num_rows = 3, num_cols = 3, row = [0,1,2], col = [1,2,0], data = None\<rparr> [1::int,0,1] 0 = [0, 2]"
    by (simp add: COOKept_def COOEdgeId_def upt_conv_Cons)
  show ?thesis
    using ok COORemoveIf_keeps_subsequence [OF ok, of 0] by (auto simp: k)
qed

section \<open>Broadcast shape inference\<close>







lemma rev_map_upt: "rev (map f [0..<n]) = map (\<lambda>i. f (n - 1 - i)) [0..<n]"
  by (rule nth_equalityI) (simp_all add: rev_nth)




section \<open>SpMM over CSR\<close>



















section \<open>Row-wise sampling policies\<close>

lemma for_loop_pure:
  assumes "\<And>i s. j \<le> i \<Longrightarrow> i < hi \<Longrightarrow> body i s = Inr (step s i)"
  shows "for_loop j hi body s = Inr (foldl step s [j..hi - 1])"
  using assms
proof (induction "nat (hi - j)" arbitrary: j s)
  case 0
  then have "\<not> j < hi" by simp
  then show ?case by (subst for_loop.simps) simp
next
  case (Suc n)
  then have lt: "j < hi" and n: "n = nat (hi - (j + 1))" by simp_all
  have up: "[j..hi - 1] = j # [j + 1..hi - 1]"
    using lt by (simp add: upto_rec1)
  have b: "body j s = Inr (step s j)" using Suc.prems lt by simp
  have ih: "for_loop (j + 1) hi body (step s j) = Inr (foldl step (step s j) [j + 1..hi - 1])"
    by (rule Suc.hyps(1) [OF n]) (simp add: Suc.prems)
  show ?case
    by (subst for_loop.simps) (simp add: lt b ih up)
qed

lemma foldl_snoc_map: "foldl (\<lambda>acc j. acc @ [g j]) acc xs = acc @ map g xs"
  by (induction xs arbitrary: acc) simp_all

lemma foldl_snoc_filter:
  "foldl (\<lambda>acc j. if P j then acc @ [g j] else acc) acc xs = acc @ map g (filter P xs)"
  by (induction xs arbitrary: acc) simp_all

lemma foldl_count:
  "foldl (\<lambda>(n::int) j. if P j then n + 1 else n) n xs = n + int (length (filter P xs))"
  by (induction xs arbitrary: n) simp_all

lemma map_add_upto: "map (\<lambda>j. off + j) [0..len - 1] = [off..off + len - 1]"
proof (induction "nat len" arbitrary: off len)
  case 0
  then show ?case by simp
next
  case (Suc n)
  then have "0 < len" and n: "n = nat (len - 1)" by simp_all
  then have a: "[0..len - 1] = [0..len - 1 - 1] @ [len - 1]"
    by (simp add: upto_rec2)
  have b: "[off..off + len - 1] = [off..off + (len - 1) - 1] @ [off + len - 1]"
    using \<open>0 < len\<close> by (simp add: upto_rec2)
  show ?case
    unfolding a b using Suc.hyps(1) [OF n, of off] by simp
qed









lemma row_ok_reads:
  assumes ok: "row_ok prob dt off len" and j: "0 \<le> j" "j < len"
  shows "edge_id dt (off + j) = Inr (eid_of dt (off + j))"
    and "read_at prob (eid_of dt (off + j)) = Inr (prob ! nat (eid_of dt (off + j)))"
proof -
  have "off + j \<in> set [off..off + len - 1]" using j by simp
  with ok have a: "(case dt of Some d \<Rightarrow> 0 \<le> off + j \<and> off + j < int (length d) | None \<Rightarrow> True)"
    and b: "0 \<le> eid_of dt (off + j) \<and> eid_of dt (off + j) < int (length prob)"
    unfolding row_ok_def list_all_iff by blast+
  show "edge_id dt (off + j) = Inr (eid_of dt (off + j))"
    using a by (cases dt) (simp_all add: edge_id_def eid_of_def read_at_def)
  show "read_at prob (eid_of dt (off + j)) = Inr (prob ! nat (eid_of dt (off + j)))"
    using b by (simp add: read_at_def)
qed

lemma positive_positions_alt:
  "positive_positions prob dt off len =
     map (\<lambda>j. off + j) (filter (\<lambda>j. 0 < prob ! nat (eid_of dt (off + j))) [0..len - 1])"
  unfolding positive_positions_def map_add_upto [symmetric] filter_map by (simp add: comp_def)

lemma count_loop:
  assumes ok: "row_ok prob dt off len"
  shows "for_loop 0 len
           (\<lambda>j num_possible_picks.
              bind_res (edge_id dt (off + j)) (\<lambda>eid.
              bind_res (read_at prob eid) (\<lambda>p.
                Inr (if p > 0 then num_possible_picks + 1 else num_possible_picks)))) 0 =
         Inr (int (length (positive_positions prob dt off len)))"
  by (subst for_loop_pure
        [where step = "\<lambda>n j. if 0 < prob ! nat (eid_of dt (off + j)) then n + 1 else n"])
     (simp_all add: row_ok_reads [OF ok] bind_res_simps foldl_count positive_positions_alt)

lemma copy_loop:
  assumes ok: "row_ok prob dt off len"
  shows "for_loop 0 len
           (\<lambda>j out_idx.
              bind_res (edge_id dt (off + j)) (\<lambda>eid.
              bind_res (read_at prob eid) (\<lambda>p.
                Inr (if p > 0 then out_idx @ [off + j] else out_idx)))) [] =
         Inr (positive_positions prob dt off len)"
  by (subst for_loop_pure
        [where step = "\<lambda>acc j. if 0 < prob ! nat (eid_of dt (off + j)) then acc @ [off + j] else acc"])
     (simp_all add: row_ok_reads [OF ok] bind_res_simps foldl_snoc_filter positive_positions_alt)

lemma DoubleSlice_row:
  assumes ok: "row_ok prob dt off len"
  shows "DoubleSlice prob dt off len = Inr (row_probs prob dt off len)"
  unfolding DoubleSlice_def row_probs_def map_add_upto [symmetric]
  by (subst for_loop_pure [where step = "\<lambda>acc j. acc @ [prob ! nat (eid_of dt (off + j))]"])
     (simp_all add: row_ok_reads [OF ok] bind_res_simps foldl_snoc_map comp_def)

lemma length_row_probs: "0 \<le> len \<Longrightarrow> int (length (row_probs prob dt off len)) = len"
  by (simp add: row_probs_def)

lemma nth_upto_row: "0 \<le> i \<Longrightarrow> i < len \<Longrightarrow> [off..off + len - 1] ! nat i = off + i"
  by (simp add: nth_upto)

lemma row_probs_nth:
  "0 \<le> i \<Longrightarrow> i < len \<Longrightarrow> row_probs prob dt off len ! nat i = prob ! nat (eid_of dt (off + i))"
  by (simp add: row_probs_def nth_upto_row)

lemma row_probs_positive:
  "length (filter (\<lambda>p. 0 < p) (row_probs prob dt off len)) =
     length (positive_positions prob dt off len)"
  unfolding row_probs_def positive_positions_def filter_map by (simp add: comp_def)

lemma weighted_num_picks:
  assumes ok: "row_ok prob dt off len"
  shows "GetSamplingNumPicksFn num_samples prob replace rowid off len cols dt =
     Inr (if num_samples = - 1 then int (length (positive_positions prob dt off len))
          else if replace then (if len = 0 then 0 else num_samples)
          else min num_samples (int (length (positive_positions prob dt off len))))"
  by (simp add: GetSamplingNumPicksFn_def count_loop [OF ok] bind_res_simps)


lemma length_positive_positions_le:
  "0 \<le> len \<Longrightarrow> int (length (positive_positions prob dt off len)) \<le> len"
proof -
  assume "0 \<le> len"
  have "length (positive_positions prob dt off len) \<le> length [off..off + len - 1]"
    unfolding positive_positions_def by (rule length_filter_le)
  then show ?thesis using \<open>0 \<le> len\<close> by simp
qed

lemma distinct_positive_positions: "distinct (positive_positions prob dt off len)"
  by (simp add: positive_positions_def)

lemma Choice_ok_row:
  assumes ch: "Choice_ok Ch" and len: "0 \<le> len" and k: "0 \<le> k"
    and pre: "if replace then k = 0 \<or> positive_positions prob dt off len \<noteq> []
              else k \<le> int (length (positive_positions prob dt off len))"
  shows "length (Ch k (row_probs prob dt off len) replace) = nat k"
    and "set (map (\<lambda>x. x + off) (Ch k (row_probs prob dt off len) replace))
           \<subseteq> set (positive_positions prob dt off len)"
    and "\<not> replace \<Longrightarrow> distinct (map (\<lambda>x. x + off) (Ch k (row_probs prob dt off len) replace))"
proof -
  let ?rp = "row_probs prob dt off len"
  have ex: "(\<exists>p \<in> set ?rp. 0 < p) \<longleftrightarrow> positive_positions prob dt off len \<noteq> []"
  proof -
    have "(\<exists>p \<in> set ?rp. 0 < p) \<longleftrightarrow> filter (\<lambda>p. 0 < p) ?rp \<noteq> []"
      by (simp add: filter_empty_conv)
    also have "\<dots> \<longleftrightarrow> length (filter (\<lambda>p. 0 < p) ?rp) \<noteq> 0" by simp
    also have "\<dots> \<longleftrightarrow> positive_positions prob dt off len \<noteq> []"
      unfolding row_probs_positive by simp
    finally show ?thesis .
  qed
  have pre': "0 \<le> k \<and> (if replace then k = 0 \<or> (\<exists>p \<in> set ?rp. 0 < p)
         else k \<le> int (length (filter (\<lambda>p. 0 < p) ?rp)))"
    using k pre unfolding ex row_probs_positive by simp
  from ch pre' have c1: "length (Ch k ?rp replace) = nat k"
    and c2: "\<forall>i \<in> set (Ch k ?rp replace). 0 \<le> i \<and> i < int (length ?rp) \<and> 0 < ?rp ! nat i"
    and c3: "\<not> replace \<longrightarrow> distinct (Ch k ?rp replace)"
    unfolding Choice_ok_def by blast+
  show "length (Ch k ?rp replace) = nat k" by (rule c1)
  show "set (map (\<lambda>x. x + off) (Ch k ?rp replace)) \<subseteq> set (positive_positions prob dt off len)"
  proof
    fix q assume "q \<in> set (map (\<lambda>x. x + off) (Ch k ?rp replace))"
    then obtain i where i: "i \<in> set (Ch k ?rp replace)" and q: "q = i + off" by auto
    from c2 i have r: "0 \<le> i" "i < int (length ?rp)" "0 < ?rp ! nat i" by blast+
    have il: "i < len" using r(2) length_row_probs [OF len, of prob dt off] by simp
    have "0 < prob ! nat (eid_of dt (off + i))"
      using r(3) by (simp add: row_probs_nth [OF r(1) il])
    moreover have "off + i \<in> set [off..off + len - 1]" using r(1) il by simp
    ultimately show "q \<in> set (positive_positions prob dt off len)"
      unfolding q positive_positions_def by (simp add: add.commute)
  qed
  show "distinct (map (\<lambda>x. x + off) (Ch k ?rp replace))" if "\<not> replace"
    using c3 that by (simp add: distinct_map inj_on_def)
qed

lemma weighted_RowPick:
  assumes ch: "Choice_ok Ch" and ok: "row_ok prob dt off len" and ns: "- 1 \<le> num_samples"
    and nz: "replace \<and> 0 < num_samples \<and> 0 < len \<longrightarrow> positive_positions prob dt off len \<noteq> []"
  shows "\<exists>picks. RowPick (GetSamplingPickFn Ch num_samples prob replace)
           (GetSamplingNumPicksFn num_samples prob replace) rowid off len cols dt = Inr picks \<and>
         int (length picks) = weighted_num_picks_of num_samples replace len
                                (int (length (positive_positions prob dt off len))) \<and>
         set picks \<subseteq> set (positive_positions prob dt off len) \<and>
         (\<not> replace \<longrightarrow> distinct picks)"
proof -
  let ?pp = "positive_positions prob dt off len"
  let ?npos = "int (length ?pp)"
  let ?k = "weighted_num_picks_of num_samples replace len ?npos"
  have len: "0 \<le> len" using ok by (simp add: row_ok_def)
  have f: "GetSamplingNumPicksFn num_samples prob replace rowid off len cols dt = Inr ?k"
    by (simp add: weighted_num_picks [OF ok] weighted_num_picks_of_def)
  have rp: "RowPick (GetSamplingPickFn Ch num_samples prob replace)
           (GetSamplingNumPicksFn num_samples prob replace) rowid off len cols dt =
        GetSamplingPickFn Ch num_samples prob replace rowid off len ?k cols dt"
    by (simp add: RowPick_def f bind_res_simps)
  have le: "?npos \<le> len" by (rule length_positive_positions_le [OF len])
  show ?thesis
  proof (cases "num_samples = - 1 \<or> (\<not> replace \<and> len = ?k)")
    case True
    have k: "?k = ?npos"
    proof (cases "num_samples = - 1")
      case True then show ?thesis by (simp add: weighted_num_picks_of_def)
    next
      case False
      with True have "\<not> replace" "len = min num_samples ?npos"
        by (auto simp: weighted_num_picks_of_def)
      then show ?thesis using le by (simp add: weighted_num_picks_of_def False)
    qed
    have "GetSamplingPickFn Ch num_samples prob replace rowid off len ?k cols dt = Inr ?pp"
      unfolding GetSamplingPickFn_def using True
      by (simp only: if_True copy_loop [OF ok] bind_res_simps k) simp
    then show ?thesis
      unfolding rp using k by (simp add: distinct_positive_positions)
  next
    case False
    then have ns1: "num_samples \<noteq> - 1" by simp
    then have ns0: "0 \<le> num_samples" using ns by simp
    have k0: "0 \<le> ?k" using ns0 ns1 by (simp add: weighted_num_picks_of_def)
    have pre: "if replace then ?k = 0 \<or> ?pp \<noteq> [] else ?k \<le> ?npos"
      using nz ns1 ns0 len by (auto simp: weighted_num_picks_of_def)
    note c = Choice_ok_row [OF ch len k0 pre]
    let ?out = "map (\<lambda>x. x + off) (Ch ?k (row_probs prob dt off len) replace)"
    have g: "GetSamplingPickFn Ch num_samples prob replace rowid off len ?k cols dt = Inr ?out"
      unfolding GetSamplingPickFn_def using False
      by (simp only: if_False DoubleSlice_row [OF ok] bind_res_simps) (simp add: c(1))
    show ?thesis
      unfolding rp g using c k0 by simp
  qed
qed




lemma weighted_sampling_truncates_aux:
  assumes "Choice_ok Ch" and "row_ok prob dt off len" and "0 \<le> num_samples"
  shows "\<exists>picks.
     RowPick (GetSamplingPickFn Ch num_samples prob False)
       (GetSamplingNumPicksFn num_samples prob False) rowid off len cols dt = Inr picks \<and>
     int (length picks) = min num_samples (int (length (positive_positions prob dt off len))) \<and>
     set picks \<subseteq> set (positive_positions prob dt off len) \<and> distinct picks \<and>
     (int (length (positive_positions prob dt off len)) < num_samples \<longrightarrow>
        set picks = set (positive_positions prob dt off len))"
proof -
  let ?pp = "positive_positions prob dt off len"
  have ns: "- 1 \<le> num_samples" using assms(3) by simp
  obtain picks where
    p: "RowPick (GetSamplingPickFn Ch num_samples prob False)
          (GetSamplingNumPicksFn num_samples prob False) rowid off len cols dt = Inr picks"
    and l: "int (length picks) = weighted_num_picks_of num_samples False len (int (length ?pp))"
    and sub: "set picks \<subseteq> set ?pp" and d: "distinct picks"
    using weighted_RowPick
      [where replace = False and rowid = rowid and cols = cols, OF assms(1,2) ns] by auto
  have l': "int (length picks) = min num_samples (int (length ?pp))"
    using l assms(3) by (simp add: weighted_num_picks_of_def)
  have all: "set picks = set ?pp" if "int (length ?pp) < num_samples"
  proof -
    have "length picks = length ?pp" using l' that by simp
    then have "card (set picks) = card (set ?pp)"
      using d distinct_positive_positions [of prob dt off len] by (simp add: distinct_card)
    then show ?thesis using sub by (simp add: card_subset_eq)
  qed
  show ?thesis using p l' sub d all by blast
qed







text \<open>
  Outside that case the picked positions have positive probability: whenever the row
  has a position of positive probability, or sampling is without replacement, or
  \<open>num_samples\<close> is -1 or 0.  On the probabilities \<open>[0, 0, 5, 0]\<close>, one sample without
  replacement is position 2 whatever the random engine draws.
\<close>

lemma weighted_picks_positive:
  assumes "Choice_ok Ch" and "row_ok prob dt off len" and "- 1 \<le> num_samples"
    and "replace \<and> 0 < num_samples \<and> 0 < len \<longrightarrow> positive_positions prob dt off len \<noteq> []"
  shows "\<exists>picks.
     RowPick (GetSamplingPickFn Ch num_samples prob replace)
       (GetSamplingNumPicksFn num_samples prob replace) rowid off len cols dt = Inr picks \<and>
     (\<forall>p \<in> set picks. off \<le> p \<and> p < off + len \<and> 0 < prob ! nat (eid_of dt p))"
proof -
  obtain picks where
    p: "RowPick (GetSamplingPickFn Ch num_samples prob replace)
          (GetSamplingNumPicksFn num_samples prob replace) rowid off len cols dt = Inr picks"
    and sub: "set picks \<subseteq> set (positive_positions prob dt off len)"
    using weighted_RowPick [where rowid = rowid and cols = cols, OF assms] by blast
  have "\<forall>p \<in> set picks. off \<le> p \<and> p < off + len \<and> 0 < prob ! nat (eid_of dt p)"
    using sub by (auto simp: positive_positions_def)
  with p show ?thesis by blast
qed

lemma example_row_0050:
  "row_ok [0, 0, 5, 0] None 0 4" "positive_positions [0, 0, 5, 0] None 0 4 = [2]"
  by (simp_all add: row_ok_def positive_positions_def eid_of_def upto.simps)

lemma weighted_example_deterministic:
  assumes "Choice_ok Ch"
  shows "RowPick (GetSamplingPickFn Ch 1 [0, 0, 5, 0] False)
           (GetSamplingNumPicksFn 1 [0, 0, 5, 0] False) rowid 0 4 cols None = Inr [2]"
proof -
  obtain picks where
    p: "RowPick (GetSamplingPickFn Ch 1 [0, 0, 5, 0] False)
          (GetSamplingNumPicksFn 1 [0, 0, 5, 0] False) rowid 0 4 cols None = Inr picks"
    and l: "int (length picks) = min 1 (int (length (positive_positions [0, 0, 5, 0] None 0 4)))"
    and sub: "set picks \<subseteq> set (positive_positions [0, 0, 5, 0] None 0 4)"
    using weighted_sampling_truncates_aux
      [where num_samples = 1 and rowid = rowid and cols = cols, OF assms example_row_0050(1)]
    by auto
  from l have "length picks = 1" by (simp add: example_row_0050(2))
  then obtain q where q: "picks = [q]" by (cases picks) auto
  with sub have "q = 2" by (simp add: example_row_0050(2))
  then show ?thesis using p q by simp
qed

section \<open>Top-k pick\<close>



















section \<open>Unique and compact\<close>

lemma gather_in_range:
  "list_all (\<lambda>l. 0 \<le> l \<and> l < int (length tbl)) ls \<Longrightarrow>
   gather tbl ls = Inr (map (\<lambda>l. tbl ! nat l) ls)"
  by (induction ls) (simp_all add: read_at_def bind_res_simps)

lemma lower_bound_member:
  assumes s: "sorted xs" and m: "x \<in> set xs"
  shows "0 \<le> lower_bound xs x" "lower_bound xs x < int (length xs)"
    "xs ! nat (lower_bound xs x) = x"
proof -
  let ?j = "length (takeWhile (\<lambda>y. y < x) xs)"
  have lt: "?j < length xs"
  proof (rule ccontr)
    assume "\<not> ?j < length xs"
    then have "?j = length xs" using length_takeWhile_le [of "\<lambda>y. y < x" xs] by simp
    then have "takeWhile (\<lambda>y. y < x) xs = xs"
      by (metis takeWhile_eq_take take_all order_refl)
    then have "\<forall>y \<in> set xs. y < x" by (simp add: takeWhile_eq_all_conv)
    then show False using m by auto
  qed
  have ge: "\<not> xs ! ?j < x" using lt by (rule nth_length_takeWhile)
  from m obtain i where i: "i < length xs" "xs ! i = x" by (auto simp: in_set_conv_nth)
  have "?j \<le> i"
  proof (rule ccontr)
    assume "\<not> ?j \<le> i"
    then have "i < ?j" by simp
    then have "takeWhile (\<lambda>y. y < x) xs ! i < x"
      by (metis nth_mem set_takeWhileD)
    moreover have "takeWhile (\<lambda>y. y < x) xs ! i = xs ! i"
      using \<open>i < ?j\<close> by (rule takeWhile_nth)
    ultimately show False using i by simp
  qed
  then have "xs ! ?j \<le> xs ! i" using s i(1) by (simp add: sorted_nth_mono)
  then have eq: "xs ! ?j = x" using ge i(2) by simp
  show "0 \<le> lower_bound xs x" by (simp add: lower_bound_def)
  show "lower_bound xs x < int (length xs)" using lt by (simp add: lower_bound_def)
  show "xs ! nat (lower_bound xs x) = x" using eq by (simp add: lower_bound_def)
qed

lemma Sort_with_index_props:
  assumes "Sort_with_index xs = (so, ni)"
  shows "sorted so" and "set so = set xs" and "length ni = length so"
    and "\<And>j. j < length so \<Longrightarrow> 0 \<le> ni ! j \<and> ni ! j < int (length xs) \<and> xs ! nat (ni ! j) = so ! j"
proof -
  define ps where "ps = sort_key fst (zip xs (map int [0..<length xs]))"
  have so: "so = map fst ps" and ni: "ni = map snd ps"
    using assms by (simp_all add: Sort_with_index_def ps_def Let_def)
  show "sorted so" unfolding so ps_def by (rule sorted_sort_key)
  have sp: "set ps = set (zip xs (map int [0..<length xs]))" by (simp add: ps_def)
  have mz: "map fst (zip xs (map int [0..<length xs])) = xs"
    by (rule map_fst_zip) simp
  have "set so = fst ` set ps" unfolding so by simp
  also have "\<dots> = set (map fst (zip xs (map int [0..<length xs])))"
    unfolding sp by (simp only: set_map)
  also have "\<dots> = set xs" unfolding mz ..
  finally show "set so = set xs" .
  show "length ni = length so" by (simp add: so ni)
  show "0 \<le> ni ! j \<and> ni ! j < int (length xs) \<and> xs ! nat (ni ! j) = so ! j" if "j < length so" for j
  proof -
    have j: "j < length ps" using that by (simp add: so)
    then have "ps ! j \<in> set ps" by (rule nth_mem)
    then have "ps ! j \<in> set (zip xs (map int [0..<length xs]))" unfolding sp .
    then obtain i where i: "i < length xs" and p: "ps ! j = (xs ! i, int i)"
      by (auto simp: in_set_conv_nth)
    then show ?thesis using j by (simp add: so ni)
  qed
qed

lemma UniqueAndCompact_real_order:
  "set src_ids \<subseteq> set (unique_dst_ids @
      remdups_adj (Sort_ids (map fst (filter (\<lambda>(x, d). \<not> d)
        (zip src_ids (map (binary_search (Sort_ids unique_dst_ids)) src_ids))))))"
proof
  fix x assume x: "x \<in> set src_ids"
  let ?os = "map fst (filter (\<lambda>(x, d). \<not> d)
        (zip src_ids (map (binary_search (Sort_ids unique_dst_ids)) src_ids)))"
  have z: "zip src_ids (map (binary_search (Sort_ids unique_dst_ids)) src_ids) =
      map (\<lambda>x. (x, binary_search (Sort_ids unique_dst_ids) x)) src_ids"
    by (induction src_ids) simp_all
  have os: "?os = filter (\<lambda>x. x \<notin> set unique_dst_ids) src_ids"
    unfolding z by (induction src_ids) (simp_all add: binary_search_def Sort_ids_def)
  show "x \<in> set (unique_dst_ids @ remdups_adj (Sort_ids ?os))"
    using x unfolding os by (auto simp: Sort_ids_def)
qed

text \<open>
  When every destination id occurs in \<open>unique_dst_ids\<close> the call succeeds: the compacted
  ids are \<open>unique_dst_ids\<close> followed by the remaining source ids, and each returned
  index leads back to the id it replaces.  Hence the error is raised only if some
  destination id is missing from \<open>unique_dst_ids\<close>.
\<close>

lemma UniqueAndCompact_success:
  assumes dst: "set dst_ids \<subseteq> set unique_dst_ids"
  shows "\<exists>real_order new_src_ids new_dst_ids.
     UniqueAndCompact src_ids dst_ids unique_dst_ids = Inr (real_order, new_src_ids, new_dst_ids) \<and>
     take (length unique_dst_ids) real_order = unique_dst_ids \<and>
     set real_order = set unique_dst_ids \<union> set src_ids \<and>
     map (\<lambda>n. real_order ! nat n) new_src_ids = src_ids \<and>
     map (\<lambda>n. real_order ! nat n) new_dst_ids = dst_ids \<and>
     list_all (\<lambda>n. 0 \<le> n \<and> n < int (length real_order)) (new_src_ids @ new_dst_ids)"
proof -
  define os where "os = map fst (filter (\<lambda>(x, d). \<not> d)
        (zip src_ids (map (binary_search (Sort_ids unique_dst_ids)) src_ids)))"
  define ro where "ro = unique_dst_ids @ remdups_adj (Sort_ids os)"
  obtain so ni where sw: "Sort_with_index ro = (so, ni)" by (cases "Sort_with_index ro")
  note P = Sort_with_index_props [OF sw]
  have src_in: "set src_ids \<subseteq> set ro"
    unfolding ro_def os_def by (rule UniqueAndCompact_real_order)
  have dst_in: "set dst_ids \<subseteq> set ro" using dst by (auto simp: ro_def)
  have os_sub: "set os \<subseteq> set src_ids"
    unfolding os_def by (auto dest: set_zip_leftD)
  have set_ro: "set ro = set unique_dst_ids \<union> set src_ids"
    using src_in os_sub by (auto simp: ro_def Sort_ids_def)
  have lb: "0 \<le> lower_bound so x \<and> lower_bound so x < int (length so) \<and>
      so ! nat (lower_bound so x) = x" if "x \<in> set ro" for x
    using lower_bound_member [OF P(1), of x] that P(2) by simp
  have loc_ok: "list_all (\<lambda>l. 0 \<le> l \<and> l < int (length tbl)) (map (lower_bound so) ids)"
    if "set ids \<subseteq> set ro" "length tbl = length so" for ids and tbl :: "int list"
    using that lb by (auto simp: list_all_iff)
  have g_found: "gather so (map (lower_bound so) dst_ids) = Inr dst_ids"
    using gather_in_range [OF loc_ok [OF dst_in refl]] lb dst_in
    by (simp add: map_idI subsetD)
  let ?new = "\<lambda>ids. map (\<lambda>x. ni ! nat (lower_bound so x)) ids"
  have g_new: "gather ni (map (lower_bound so) ids) = Inr (?new ids)"
    if "set ids \<subseteq> set ro" for ids
    using gather_in_range [OF loc_ok [OF that P(3)]] by (simp add: comp_def)
  have bk: "map (\<lambda>n. ro ! nat n) (?new ids) = ids" if "set ids \<subseteq> set ro" for ids
  proof -
    have "ro ! nat (ni ! nat (lower_bound so x)) = x" if "x \<in> set ids" for x
    proof -
      have xr: "x \<in> set ro" using that \<open>set ids \<subseteq> set ro\<close> by blast
      from lb [OF xr] have j: "nat (lower_bound so x) < length so"
        and e: "so ! nat (lower_bound so x) = x" by linarith+
      from P(4) [OF j] show ?thesis using e by simp
    qed
    then show ?thesis by (simp add: comp_def map_idI)
  qed
  have rng: "list_all (\<lambda>n. 0 \<le> n \<and> n < int (length ro)) (?new ids)" if "set ids \<subseteq> set ro" for ids
    unfolding list_all_iff
  proof
    fix n assume "n \<in> set (?new ids)"
    then obtain x where "x \<in> set ids" and n: "n = ni ! nat (lower_bound so x)" by auto
    then have xr: "x \<in> set ro" using that by blast
    from lb [OF xr] have j: "nat (lower_bound so x) < length so" by linarith
    from P(4) [OF j] show "0 \<le> n \<and> n < int (length ro)" unfolding n by simp
  qed
  have ok: "list_all (\<lambda>(f, d). f = d) (zip dst_ids dst_ids)"
    by (auto simp: list_all_iff zip_same)
  have res: "UniqueAndCompact src_ids dst_ids unique_dst_ids =
      Inr (ro, ?new src_ids, ?new dst_ids)"
    unfolding UniqueAndCompact_def Let_def os_def [symmetric] ro_def [symmetric] sw prod.case
    by (simp only: g_found bind_res_simps ok g_new [OF src_in] g_new [OF dst_in]) simp
  show ?thesis
    using res bk [OF src_in] bk [OF dst_in] rng [OF src_in] rng [OF dst_in] set_ro
    by (intro exI [of _ ro] exI [of _ "?new src_ids"] exI [of _ "?new dst_ids"])
       (simp add: ro_def)
qed


lemma UniqueAndCompact_raises_only_if:
  assumes "UniqueAndCompact src_ids dst_ids unique_dst_ids = Inl OutOfRange"
  shows "\<exists>d \<in> set dst_ids. d \<notin> set unique_dst_ids"
proof (rule ccontr)
  assume "\<not> (\<exists>d \<in> set dst_ids. d \<notin> set unique_dst_ids)"
  then have "set dst_ids \<subseteq> set unique_dst_ids" by blast
  from UniqueAndCompact_success [OF this, of src_ids] assms show False by auto
qed

text \<open>
  Claim C8 at an input that the code handles against the claim.  The destination id 7
  does not occur in \<open>unique_dst_ids = [3]\<close>, but it is a source id, so it is found in
  the sorted ids of both kinds, the check of lines 150 to 161 passes, and the call
  returns instead of raising the out-of-range error.
\<close>

theorem UniqueAndCompact_missed_dst_id:
  "(7::int) \<notin> set [3] \<and> UniqueAndCompact [7] [7] [3] = Inr ([3, 7], [1], [1])"
  by code_simp

section \<open>Compaction of indices\<close>

lemma index_select_in_range:
  "list_all (\<lambda>i. i < length t) is \<Longrightarrow> index_select t is = Inr (map (\<lambda>i. t ! i) is)"
  by (induction "is") (simp_all add: bind_res_simps)

lemma index_put_distinct:
  "distinct is \<Longrightarrow> length vs = length is \<Longrightarrow> \<forall>i \<in> set is. i < length t \<Longrightarrow>
   \<exists>t'. index_put t is vs = Inr t' \<and> length t' = length t \<and>
        (\<forall>j < length is. t' ! (is ! j) = vs ! j) \<and> (\<forall>k. k \<notin> set is \<longrightarrow> t' ! k = t ! k)"
proof (induction "is" arbitrary: t vs)
  case Nil
  then show ?case by simp
next
  case (Cons i "is")
  then obtain v vs' where vs: "vs = v # vs'" by (cases vs) auto
  have i: "i < length t" and ni: "i \<notin> set is" using Cons.prems by simp_all
  have "\<exists>t'. index_put (t[i := v]) is vs' = Inr t' \<and> length t' = length (t[i := v]) \<and>
        (\<forall>j < length is. t' ! (is ! j) = vs' ! j) \<and> (\<forall>k. k \<notin> set is \<longrightarrow> t' ! k = (t[i := v]) ! k)"
    using Cons.prems vs by (intro Cons.IH) simp_all
  then obtain t' where t': "index_put (t[i := v]) is vs' = Inr t'" "length t' = length t"
    and a: "\<forall>j < length is. t' ! (is ! j) = vs' ! j"
    and b: "\<forall>k. k \<notin> set is \<longrightarrow> t' ! k = (t[i := v]) ! k"
    by auto
  have "t' ! i = v" using b ni i by simp
  then have a': "\<forall>j < length (i # is). t' ! ((i # is) ! j) = vs ! j"
    using a vs by (auto simp: nth_Cons split: nat.splits)
  have b': "\<forall>k. k \<notin> set (i # is) \<longrightarrow> t' ! k = t ! k" using b by auto
  show ?case
    using t' a' b' i by (intro exI [of _ t']) (simp add: vs)
qed

lemma torch_sort_props:
  assumes ok: "torch_sort_ok srt" and s: "srt xs = (vals, idx)"
  shows "sorted vals" and "length idx = length xs" and "distinct idx"
    and "set idx = {0..<length xs}" and "vals = map (\<lambda>i. xs ! i) idx"
proof -
  from ok s have a: "sorted vals" and m: "mset idx = mset [0..<length xs]"
    and v: "vals = map (\<lambda>i. xs ! i) idx"
    unfolding torch_sort_ok_def by (metis (mono_tags, lifting) case_prod_conv)+
  show "sorted vals" by (rule a)
  show "length idx = length xs" using mset_eq_length [OF m] by simp
  show "distinct idx" using m by (metis distinct_upt mset_eq_imp_distinct_iff)
  show "set idx = {0..<length xs}" using mset_eq_setD [OF m] by simp
  show "vals = map (\<lambda>i. xs ! i) idx" by (rule v)
qed

lemma torch_unique_props:
  assumes ok: "torch_unique_ok uq" and u: "uq xs = (uniqued, inv_idx)"
  shows "distinct uniqued" and "set uniqued = set xs" and "length inv_idx = length xs"
    and "\<And>i. i < length xs \<Longrightarrow> inv_idx ! i < length uniqued \<and> uniqued ! (inv_idx ! i) = xs ! i"
  using ok u unfolding torch_unique_ok_def by (metis (mono_tags, lifting) case_prod_conv)+

lemma CompactIndices_result:
  assumes so: "torch_sort_ok srt" and uo: "torch_unique_ok uq"
    and s: "srt rw = (sort_row, sort_idx)"
    and u: "uq (leading_list leading_indices @ sort_row) = (uniqued, uniq_idx)"
  shows "\<exists>new_row. CompactIndices srt uq rw leading_indices = Inr (new_row, uniqued) \<and>
     length new_row = length rw \<and>
     (\<forall>i < length rw. new_row ! i < length uniqued \<and>
        uniqued ! (length uniqued - 1 - new_row ! i) = rw ! i)"
proof -
  let ?n = "length rw" and ?L = "leading_list leading_indices" and ?N = "length uniqued"
  note S = torch_sort_props [OF so s]
  note U = torch_unique_props [OF uo u]
  have nl: "(case leading_indices of Some l \<Rightarrow> length l | None \<Rightarrow> 0) = length ?L"
    by (simp add: leading_list_def split: option.splits)
  have uq_case: "(case leading_indices of Some l \<Rightarrow> uq (l @ sort_row) | None \<Rightarrow> uq sort_row) =
      (uniqued, uniq_idx)"
    using u by (simp add: leading_list_def split: option.splits)
  obtain rv where rv: "index_put (replicate (length sort_idx) 0) sort_idx [0..<length sort_idx] = Inr rv"
    and lrv: "length rv = ?n"
    and rvj: "\<forall>j < ?n. rv ! (sort_idx ! j) = j"
    using index_put_distinct [OF S(3), of "[0..<length sort_idx]" "replicate (length sort_idx) 0"]
      S(2,4) by auto
  have inv: "\<exists>j < ?n. sort_idx ! j = i" if "i < ?n" for i
  proof -
    have "i \<in> set sort_idx" using that S(4) by simp
    then show ?thesis using S(2) by (auto simp: in_set_conv_nth)
  qed
  have rv_lt: "rv ! i < ?n" if "i < ?n" for i
    using inv [OF that] rvj by auto
  let ?S = "take ?n (drop (length ?L) uniq_idx)"
  have lS: "length ?S = ?n" using U(3) S(2) S(5) by simp
  have Sj: "?S ! j = uniq_idx ! (length ?L + j)" if "j < ?n" for j
    using that U(3) S(2) S(5) by simp
  have sr_len: "length sort_row = ?n" using S(2) S(5) by simp
  have Sj_lt: "?S ! j < ?N \<and> uniqued ! (?S ! j) = sort_row ! j" if "j < ?n" for j
  proof -
    have "length ?L + j < length (?L @ sort_row)" using that sr_len by simp
    from U(4) [OF this] show ?thesis unfolding Sj [OF that] by (simp add: nth_append)
  qed
  have all_S: "list_all (\<lambda>i. i < length (rev [0..<?N])) ?S"
    unfolding list_all_length using Sj_lt lS by simp
  let ?sel = "map (\<lambda>i. rev [0..<?N] ! i) ?S"
  have sel: "index_select (rev [0..<?N]) ?S = Inr ?sel"
    by (rule index_select_in_range [OF all_S])
  have all_rv: "list_all (\<lambda>i. i < length ?sel) rv"
    unfolding list_all_length using rv_lt lrv lS by simp
  let ?new = "map (\<lambda>i. ?sel ! i) rv"
  have new: "index_select ?sel rv = Inr ?new"
    by (rule index_select_in_range [OF all_rv])
  have res: "CompactIndices srt uq rw leading_indices = Inr (?new, uniqued)"
    unfolding CompactIndices_def s prod.case rv bind_res_simps Let_def nl uq_case
    by (simp only: sel new bind_res_simps)
  have val: "?new ! i < ?N \<and> uniqued ! (?N - 1 - ?new ! i) = rw ! i" if i: "i < ?n" for i
  proof -
    obtain j where j: "j < ?n" "sort_idx ! j = i" using inv [OF i] by blast
    have r: "rv ! i = j" using rvj j by auto
    have p: "?S ! j < ?N" and e: "uniqued ! (?S ! j) = sort_row ! j" using Sj_lt [OF j(1)] by simp_all
    have "?new ! i = ?sel ! j" using i lrv r by simp
    also have "\<dots> = rev [0..<?N] ! (?S ! j)" using j(1) lS by simp
    also have "\<dots> = ?N - 1 - ?S ! j" using p by (simp add: rev_nth)
    finally have n: "?new ! i = ?N - 1 - ?S ! j" .
    have "sort_row ! j = rw ! i" using S(5) S(2) j by simp
    then show ?thesis using n p e by simp
  qed
  show ?thesis
    using res val lrv by (intro exI [of _ ?new]) simp
qed


lemma CompactCOO_result:
  assumes so: "torch_sort_ok srt" and uo: "torch_unique_ok uq"
    and s: "srt rw = (sort_row, sort_idx)"
    and u: "uq (leading_list leading_indices @ sort_row) = (uniqued, uniq_idx)"
  shows "\<exists>new_row. CompactCOO srt uq rw leading_indices = Inr (new_row, rev uniqued) \<and>
     length new_row = length rw \<and>
     (\<forall>i < length rw. new_row ! i < length uniqued \<and> rev uniqued ! (new_row ! i) = rw ! i)"
proof -
  obtain new_row where r: "CompactIndices srt uq rw leading_indices = Inr (new_row, uniqued)"
    and l: "length new_row = length rw"
    and v: "\<forall>i < length rw. new_row ! i < length uniqued \<and>
        uniqued ! (length uniqued - 1 - new_row ! i) = rw ! i"
    using CompactIndices_result [OF so uo s u] by blast
  have "rev uniqued ! (new_row ! i) = rw ! i" if "i < length rw" for i
  proof -
    have lt: "new_row ! i < length uniqued" using v that by blast
    have "rev uniqued ! (new_row ! i) = uniqued ! (length uniqued - Suc (new_row ! i))"
      using lt by (rule rev_nth)
    also have "\<dots> = uniqued ! (length uniqued - 1 - new_row ! i)" by simp
    finally show ?thesis using v that by simp
  qed
  then show ?thesis
    using r l v by (intro exI [of _ new_row]) (simp add: CompactCOO_def bind_res_simps)
qed

lemma set_sort_row:
  assumes so: "torch_sort_ok srt" and s: "srt rw = (sort_row, sort_idx)"
  shows "mset sort_row = mset rw"
proof -
  note S = torch_sort_props [OF so s]
  have "mset sort_row = image_mset (\<lambda>i. rw ! i) (mset sort_idx)" unfolding S(5) by simp
  also have "mset sort_idx = mset [0..<length rw]"
    using so s unfolding torch_sort_ok_def by (metis (mono_tags, lifting) case_prod_conv)
  also have "image_mset (\<lambda>i. rw ! i) (mset [0..<length rw]) = mset (map (\<lambda>i. rw ! i) [0..<length rw])"
    by simp
  also have "\<dots> = mset rw" by (simp only: map_nth)
  finally show ?thesis .
qed

lemma index_of_member:
  assumes "x \<in> set us"
  shows "index_of us x < length us" and "us ! index_of us x = x"
proof -
  let ?j = "length (takeWhile (\<lambda>y. y \<noteq> x) us)"
  show lt: "index_of us x < length us"
  proof (rule ccontr)
    assume "\<not> index_of us x < length us"
    then have "?j = length us"
      using length_takeWhile_le [of "\<lambda>y. y \<noteq> x" us] by (simp add: index_of_def)
    then have "takeWhile (\<lambda>y. y \<noteq> x) us = us"
      by (metis takeWhile_eq_take take_all order_refl)
    then have "\<forall>y \<in> set us. y \<noteq> x" by (simp add: takeWhile_eq_all_conv)
    then show False using assms by auto
  qed
  then have "\<not> us ! ?j \<noteq> x" unfolding index_of_def by (rule nth_length_takeWhile)
  then show "us ! index_of us x = x" by (simp add: index_of_def)
qed

lemma unique_by_index_ok:
  assumes "distinct us" and "set us = set xs"
  shows "case (us, map (index_of us) xs) of (uniqued, inv_idx) \<Rightarrow>
        distinct uniqued \<and> set uniqued = set xs \<and> length inv_idx = length xs \<and>
        (\<forall>i < length xs. inv_idx ! i < length uniqued \<and> uniqued ! (inv_idx ! i) = xs ! i)"
  using assms index_of_member [of _ us] by auto

lemma sorted_unique_ok: "torch_unique_ok sorted_unique"
  unfolding torch_unique_ok_def sorted_unique_def Let_def
  by (intro allI unique_by_index_ok) simp_all

lemma reversed_unique_ok: "torch_unique_ok reversed_unique"
  unfolding torch_unique_ok_def reversed_unique_def Let_def rev_rev_ident
  by (intro allI unique_by_index_ok) simp_all

lemma stable_sort_ok: "torch_sort_ok stable_sort"
  unfolding torch_sort_ok_def
proof (intro allI)
  fix xs :: "int list"
  define ps where "ps = sort_key fst (zip xs [0..<length xs])"
  have st: "stable_sort xs = (map fst ps, map snd ps)"
    by (simp add: stable_sort_def ps_def Let_def)
  have a: "sorted (map fst ps)" unfolding ps_def by (rule sorted_sort_key)
  have "mset ps = mset (zip xs [0..<length xs])" by (simp add: ps_def)
  then have "mset (map snd ps) = mset (map snd (zip xs [0..<length xs]))"
    by (metis mset_map)
  then have b: "mset (map snd ps) = mset [0..<length xs]" by (simp add: map_snd_zip)
  have "set ps = set (zip xs [0..<length xs])" by (simp add: ps_def)
  then have "\<forall>p \<in> set ps. fst p = xs ! snd p"
    by (auto simp: in_set_conv_nth)
  then have c: "map fst ps = map (\<lambda>i. xs ! i) (map snd ps)" by simp
  show "case stable_sort xs of (vals, idx) \<Rightarrow>
        sorted vals \<and> mset idx = mset [0..<length xs] \<and> vals = map (\<lambda>i. xs ! i) idx"
    unfolding st prod.case by (intro conjI a b c)
qed


lemma sorted_wrt_remdups: "sorted_wrt P xs \<Longrightarrow> sorted_wrt P (remdups xs)"
  by (induction xs) auto

lemma remdups_append_filter:
  "remdups (xs @ ys) = remdups (filter (\<lambda>x. x \<notin> set ys) xs) @ remdups ys"
  by (induction xs) auto

lemma first_occurrences_append:
  assumes "distinct xs"
  shows "rev (remdups (rev (xs @ ys))) = xs @ rev (remdups (rev (filter (\<lambda>y. y \<notin> set xs) ys)))"
proof -
  have "remdups (rev ys @ rev xs) = remdups (filter (\<lambda>y. y \<notin> set (rev xs)) (rev ys)) @ remdups (rev xs)"
    by (rule remdups_append_filter)
  also have "remdups (rev xs) = rev xs" using assms by (simp add: distinct_remdups_id)
  also have "filter (\<lambda>y. y \<notin> set (rev xs)) (rev ys) = rev (filter (\<lambda>y. y \<notin> set xs) ys)"
    by (simp add: rev_filter)
  finally show ?thesis by simp
qed

lemma sorted_first_occurrences:
  assumes "sorted zs"
  shows "sorted (rev (remdups (rev zs)))"
proof -
  have "sorted_wrt (\<lambda>x y. y \<le> x) (rev zs)" using assms by (simp add: sorted_wrt_rev)
  then have "sorted_wrt (\<lambda>x y. y \<le> x) (remdups (rev zs))" by (rule sorted_wrt_remdups)
  then show ?thesis by (simp add: sorted_wrt_rev)
qed

lemma CompactCOO_reversed_unique:
  assumes so: "torch_sort_ok srt" and d: "distinct l"
  shows "\<exists>new_row rest. CompactCOO srt reversed_unique rw (Some l) = Inr (new_row, l @ rest) \<and>
     sorted rest \<and> distinct rest \<and> set rest = set rw - set l"
proof -
  obtain sort_row sort_idx where s: "srt rw = (sort_row, sort_idx)" by (cases "srt rw")
  define us where "us = rev (remdups (rev (l @ sort_row)))"
  define rest where "rest = rev (remdups (rev (filter (\<lambda>y. y \<notin> set l) sort_row)))"
  have u: "reversed_unique (leading_list (Some l) @ sort_row) =
      (rev us, map (index_of (rev us)) (l @ sort_row))"
    by (simp add: reversed_unique_def leading_list_def us_def Let_def)
  obtain new_row where r: "CompactCOO srt reversed_unique rw (Some l) = Inr (new_row, rev (rev us))"
    using CompactCOO_result [OF so reversed_unique_ok s u] by blast
  have us: "us = l @ rest" unfolding us_def rest_def by (rule first_occurrences_append [OF d])
  have srt_row: "sorted sort_row" using torch_sort_props(1) [OF so s] .
  have "sorted (filter (\<lambda>y. y \<notin> set l) sort_row)" using srt_row by (rule sorted_wrt_filter)
  then have a: "sorted rest" unfolding rest_def by (rule sorted_first_occurrences)
  have b: "distinct rest" by (simp add: rest_def)
  have "set sort_row = set rw" using set_sort_row [OF so s] by (rule mset_eq_setD)
  then have c: "set rest = set rw - set l" by (auto simp: rest_def)
  show ?thesis using r a b c unfolding us by auto
qed

lemma CompactCOO_sorted_unique:
  assumes so: "torch_sort_ok srt"
  shows "\<exists>new_row. CompactCOO srt sorted_unique rw leading_indices =
     Inr (new_row, rev (remdups (sort (leading_list leading_indices @ rw))))"
proof -
  obtain sort_row sort_idx where s: "srt rw = (sort_row, sort_idx)" by (cases "srt rw")
  let ?L = "leading_list leading_indices"
  have m: "mset (sort (?L @ sort_row)) = mset (?L @ rw)"
    using set_sort_row [OF so s] by simp
  have e: "sort (?L @ rw) = sort (?L @ sort_row)"
    by (rule properties_for_sort [OF m]) simp
  have u: "sorted_unique (?L @ sort_row) =
      (remdups (sort (?L @ rw)), map (index_of (remdups (sort (?L @ rw)))) (?L @ sort_row))"
    by (simp add: sorted_unique_def Let_def e)
  show ?thesis
    using CompactCOO_result [OF so sorted_unique_ok s u] by blast
qed

text \<open>
  Claim C7, as amended.  Compaction gives every id of the row the index at which the
  returned reverse mapping holds that id; the reverse mapping holds each leading id and
  each id of the row once.  The order of the reverse mapping is the reverse of the order
  in which the library's unsorted unique returns the values.  When that is the reverse
  of the order of first occurrence, leading ids that are all different take the indices
  from 0 in their given order and the other ids follow in ascending order; when it is
  the ascending order, all ids, the leading ones among them, are numbered in descending
  order.
\<close>

theorem CompactCOO_relabelling:
  "(torch_sort_ok srt \<and> torch_unique_ok uq \<longrightarrow>
      (\<exists>new_row ret_idx. CompactCOO srt uq rw leading_indices = Inr (new_row, ret_idx) \<and>
         length new_row = length rw \<and> distinct ret_idx \<and>
         set ret_idx = set (leading_list leading_indices) \<union> set rw \<and>
         (\<forall>i < length rw. new_row ! i < length ret_idx \<and> ret_idx ! (new_row ! i) = rw ! i))) \<and>
   (torch_sort_ok srt \<and> distinct l \<longrightarrow>
      (\<exists>new_row rest. CompactCOO srt reversed_unique rw (Some l) = Inr (new_row, l @ rest) \<and>
         sorted rest \<and> distinct rest \<and> set rest = set rw - set l)) \<and>
   (torch_sort_ok srt \<longrightarrow>
      (\<exists>new_row. CompactCOO srt sorted_unique rw leading_indices =
         Inr (new_row, rev (remdups (sort (leading_list leading_indices @ rw))))))"
proof (intro conjI impI)
  assume a: "torch_sort_ok srt \<and> torch_unique_ok uq"
  obtain sort_row sort_idx where s: "srt rw = (sort_row, sort_idx)" by (cases "srt rw")
  obtain uniqued uniq_idx where u: "uq (leading_list leading_indices @ sort_row) = (uniqued, uniq_idx)"
    by (cases "uq (leading_list leading_indices @ sort_row)")
  note U = torch_unique_props [OF conjunct2 [OF a] u]
  have "set sort_row = set rw" using set_sort_row [OF conjunct1 [OF a] s] by (rule mset_eq_setD)
  then have st: "set (rev uniqued) = set (leading_list leading_indices) \<union> set rw"
    using U(2) by simp
  obtain new_row where r: "CompactCOO srt uq rw leading_indices = Inr (new_row, rev uniqued)"
    and l: "length new_row = length rw"
    and v: "\<forall>i < length rw. new_row ! i < length uniqued \<and> rev uniqued ! (new_row ! i) = rw ! i"
    using CompactCOO_result [OF conjunct1 [OF a] conjunct2 [OF a] s u] by blast
  show "\<exists>new_row ret_idx. CompactCOO srt uq rw leading_indices = Inr (new_row, ret_idx) \<and>
         length new_row = length rw \<and> distinct ret_idx \<and>
         set ret_idx = set (leading_list leading_indices) \<union> set rw \<and>
         (\<forall>i < length rw. new_row ! i < length ret_idx \<and> ret_idx ! (new_row ! i) = rw ! i)"
    using r l v st U(1) by (intro exI [of _ new_row] exI [of _ "rev uniqued"]) simp
next
  assume "torch_sort_ok srt \<and> distinct l"
  then show "\<exists>new_row rest. CompactCOO srt reversed_unique rw (Some l) = Inr (new_row, l @ rest) \<and>
         sorted rest \<and> distinct rest \<and> set rest = set rw - set l"
    using CompactCOO_reversed_unique by blast
next
  assume "torch_sort_ok srt"
  then show "\<exists>new_row. CompactCOO srt sorted_unique rw leading_indices =
         Inr (new_row, rev (remdups (sort (leading_list leading_indices @ rw))))"
    by (rule CompactCOO_sorted_unique)
qed

lemma CompactCOO_examples:
  "CompactCOO stable_sort sorted_unique [3, 5, 7] (Some [5]) = Inr ([2, 1, 0], [7, 5, 3])"
  "CompactCOO stable_sort reversed_unique [3, 5, 7] (Some [5]) = Inr ([1, 0, 2], [5, 3, 7])"
  by code_simp+

theorem CompactCOO_relabelling_witness:
  "torch_sort_ok stable_sort \<and> torch_unique_ok reversed_unique \<and> distinct [5::int] \<and>
   (\<exists>new_row ret_idx. CompactCOO stable_sort reversed_unique [3, 5, 7] (Some [5]) = Inr (new_row, ret_idx) \<and>
      ret_idx ! (new_row ! 2) = 7)"
  using CompactCOO_relabelling [of stable_sort reversed_unique "[3, 5, 7]" "Some [5]" "[5]"]
    stable_sort_ok reversed_unique_ok
  by fastforce

text \<open>
  Claim C7 as stated fails on the row \<open>[3, 5, 7]\<close> with the leading id 5.  With a
  unique that returns ascending order the leading id gets the index 1, outside the
  leading range.  With a unique that returns the reverse of the order of first
  occurrence the leading id gets the index 0, and the other ids 3 and 7 get 1 and 2,
  their order among the sorted ids and not its reverse.
\<close>

theorem CompactCOO_leading_counterexample:
  "torch_sort_ok stable_sort \<and> torch_unique_ok sorted_unique \<and>
   CompactCOO stable_sort sorted_unique [3, 5, 7] (Some [5]) = Inr ([2, 1, 0], [7, 5, 3]) \<and>
   torch_unique_ok reversed_unique \<and>
   CompactCOO stable_sort reversed_unique [3, 5, 7] (Some [5]) = Inr ([1, 0, 2], [5, 3, 7])"
  using stable_sort_ok sorted_unique_ok reversed_unique_ok CompactCOO_examples by simp

end
